theory Spec2Isabelle
  imports Main
begin

section \<open>Binary search (src/test-code.py)\<close>

text \<open>
  The repository is one Python function, \<^verbatim>\<open>binary_search(arr, target)\<close>, and a
  script that calls it once and prints a line. Python integers are unbounded, so
  \<open>left\<close>, \<open>right\<close> and \<open>mid\<close> are of type \<open>int\<close>; \<open>//\<close> is floor
  division, which is \<open>div\<close> on \<open>int\<close>. The elements of the list are of any type with
  an order \<open><\<close>; equality is HOL equality.
\<close>

subsection \<open>Python list indexing\<close>

datatype error = IndexError

text \<open>
  \<^verbatim>\<open>arr[i]\<close>: a negative index counts from the end of the list; an index outside
  the list raises \<^verbatim>\<open>IndexError\<close>.
\<close>

definition getitem :: "'a list \<Rightarrow> int \<Rightarrow> error + 'a" where
  "getitem arr i =
     (if 0 \<le> i \<and> i < int (length arr) then Inr (arr ! nat i)
      else if - int (length arr) \<le> i \<and> i < 0 then Inr (arr ! nat (int (length arr) + i))
      else Inl IndexError)"

subsection \<open>The loop of \<^verbatim>\<open>binary_search\<close>\<close>

text \<open>
  One execution of the body of the \<^verbatim>\<open>while\<close> loop (lines 10 to 17) either returns
  from the function, raises, or falls through to the next test of the loop condition
  with new values of \<open>left\<close> and \<open>right\<close>. The source evaluates \<^verbatim>\<open>arr[mid]\<close>
  once for \<^verbatim>\<open>==\<close> and once more for \<^verbatim>\<open><\<close>; so does the model.
\<close>

datatype step = Return int | Raise error | Continue int int

definition loop_body :: "'a::ord list \<Rightarrow> 'a \<Rightarrow> int \<Rightarrow> int \<Rightarrow> step" where
  "loop_body arr target left right =
     (let mid = (left + right) div 2 in
      case getitem arr mid of
        Inl e \<Rightarrow> Raise e
      | Inr v \<Rightarrow>
          if v = target then Return mid
          else
            (case getitem arr mid of
               Inl e \<Rightarrow> Raise e
             | Inr w \<Rightarrow>
                 if w < target then Continue (mid + 1) right
                 else Continue left (mid - 1)))"

text \<open>
  \<^verbatim>\<open>while left <= right: ...\<close> followed by \<^verbatim>\<open>return -1\<close>. The result is
  \<open>Inr\<close> of the returned integer, or \<open>Inl\<close> of the exception that escaped.
\<close>

function while_loop :: "'a::ord list \<Rightarrow> 'a \<Rightarrow> int \<Rightarrow> int \<Rightarrow> error + int" where
  "while_loop arr target left right =
     (if left \<le> right then
        (case loop_body arr target left right of
           Return i \<Rightarrow> Inr i
         | Raise e \<Rightarrow> Inl e
         | Continue left' right' \<Rightarrow> while_loop arr target left' right')
      else Inr (- 1))"
  by pat_completeness auto
termination
proof (relation "measure (\<lambda>(arr, target, left, right). nat (right - left + 1))")
  show "wf (measure (\<lambda>(arr :: 'a list, target :: 'a, left, right). nat (right - left + 1)))"
    by simp
next
  fix arr :: "'a list" and target :: 'a and left right left' right' :: int
  assume le: "left \<le> right"
    and body: "loop_body arr target left right = Continue left' right'"
  from body have "(left' = (left + right) div 2 + 1 \<and> right' = right)
      \<or> (left' = left \<and> right' = (left + right) div 2 - 1)"
    by (auto simp: loop_body_def Let_def split: sum.splits if_splits)
  with le have "right' - left' < right - left"
    by auto
  with le show "((arr, target, left', right'), (arr, target, left, right))
      \<in> measure (\<lambda>(arr, target, left, right). nat (right - left + 1))"
    by simp
qed

declare while_loop.simps [simp del]

definition binary_search :: "'a::ord list \<Rightarrow> 'a \<Rightarrow> error + int" where
  "binary_search arr target = while_loop arr target 0 (int (length arr) - 1)"

subsection \<open>The states of the loop\<close>

text \<open>
  \<open>loop_head arr target left right\<close>: the call \<^verbatim>\<open>binary_search(arr, target)\<close> reaches
  the test of the loop condition with these values of \<open>left\<close> and \<open>right\<close>. The first
  rule is line 7; the second is one pass through the body that neither returns nor
  raises.
\<close>

inductive loop_head :: "'a::ord list \<Rightarrow> 'a \<Rightarrow> int \<Rightarrow> int \<Rightarrow> bool"
  for arr :: "'a list" and target :: 'a where
  entry: "loop_head arr target 0 (int (length arr) - 1)"
| again: "loop_head arr target left right \<Longrightarrow> left \<le> right \<Longrightarrow>
          loop_body arr target left right = Continue left' right' \<Longrightarrow>
          loop_head arr target left' right'"

subsection \<open>The loop with no termination argument\<close>

text \<open>
  The same loop as a partial function: \<open>None\<close> is the value of a loop that runs
  forever. Nothing about termination enters this definition.
\<close>

partial_function (option) while_loop_opt ::
  "'a::ord list \<Rightarrow> 'a \<Rightarrow> int \<Rightarrow> int \<Rightarrow> (error + int) option" where
  "while_loop_opt arr target left right =
     (if left \<le> right then
        (case loop_body arr target left right of
           Return i \<Rightarrow> Some (Inr i)
         | Raise e \<Rightarrow> Some (Inl e)
         | Continue left' right' \<Rightarrow> while_loop_opt arr target left' right')
      else Some (Inr (- 1)))"

definition binary_search_opt :: "'a::ord list \<Rightarrow> 'a \<Rightarrow> (error + int) option" where
  "binary_search_opt arr target = while_loop_opt arr target 0 (int (length arr) - 1)"

subsection \<open>The script\<close>

text \<open>Line 22.\<close>

definition sorted_array :: "int list" where
  "sorted_array = [1, 3, 5, 7, 9, 11, 13, 15, 17, 19]"

text \<open>
  Lines 23 to 29: the script calls \<open>binary_search\<close> once and prints one line. The
  f-string formats an integer as \<^verbatim>\<open>str\<close> does: decimal digits, with a minus sign
  for a negative number. The output is the list of the lines printed.
\<close>

definition digit_char :: "nat \<Rightarrow> char" where
  "digit_char d = ''0123456789'' ! d"

function str_nat :: "nat \<Rightarrow> string" where
  "str_nat n = (if n < 10 then [digit_char n] else str_nat (n div 10) @ [digit_char (n mod 10)])"
  by pat_completeness auto
termination
  by (relation "measure (\<lambda>n. n)") auto

declare str_nat.simps [simp del]

definition str_int :: "int \<Rightarrow> string" where
  "str_int i = (if i < 0 then CHR ''-'' # str_nat (nat (- i)) else str_nat (nat i))"

definition script :: "error + string list" where
  "script =
     (let target = 7 in
      case binary_search sorted_array target of
        Inl e \<Rightarrow> Inl e
      | Inr result \<Rightarrow>
          if result \<noteq> - 1 then
            Inr [''Element '' @ str_int target @ '' found at index '' @ str_int result]
          else
            Inr [''Element '' @ str_int target @ '' not found in the array''])"

subsection \<open>The algorithm as the specification words it\<close>

text \<open>
  Section 4.1 of the specification: a zero-indexed sequence, two bounds \<open>low\<close> and
  \<open>high\<close>, and three tests on \<open>sequence[mid]\<close>: equal, less than the target,
  greater than the target. The elements are totally ordered, so one of the three
  holds; the last branch below (none holds, the bounds stay as they are) is there
  only because the three tests are written one by one. The specification gives no
  meaning to \<open>sequence[i]\<close> outside \<open>0 \<le> i < length\<close>; it is an error here.
\<close>

definition spec_at :: "'a list \<Rightarrow> int \<Rightarrow> error + 'a" where
  "spec_at sequence i =
     (if 0 \<le> i \<and> i < int (length sequence) then Inr (sequence ! nat i) else Inl IndexError)"

function spec_loop :: "'a::linorder list \<Rightarrow> 'a \<Rightarrow> int \<Rightarrow> int \<Rightarrow> error + int" where
  "spec_loop sequence target low high =
     (if low \<le> high then
        (let mid = (low + high) div 2 in
         case spec_at sequence mid of
           Inl e \<Rightarrow> Inl e
         | Inr v \<Rightarrow>
             if v = target then Inr mid
             else if v < target then spec_loop sequence target (mid + 1) high
             else if v > target then spec_loop sequence target low (mid - 1)
             else spec_loop sequence target low high)
      else Inr (- 1))"
  by pat_completeness auto
termination
  by (relation "measure (\<lambda>(sequence, target, low, high). nat (high - low + 1))") auto

declare spec_loop.simps [simp del]

definition spec_search :: "'a::linorder list \<Rightarrow> 'a \<Rightarrow> error + int" where
  "spec_search sequence target = spec_loop sequence target 0 (int (length sequence) - 1)"

subsection \<open>The call in a world with state\<close>

text \<open>
  Python evaluates \<^verbatim>\<open>len(arr)\<close>, \<^verbatim>\<open>arr[mid]\<close>, \<^verbatim>\<open>==\<close> and \<^verbatim>\<open><\<close> by calling
  methods of the objects involved; a method may change any state the program can
  observe, and need not answer the same way twice. So the four operations are
  parameters here. Each is a relation between the state before and the value and
  state after; \<open>'s\<close> is all the observable state, \<open>'r\<close> the reference \<open>arr\<close>.
  What the function adds of its own is arithmetic on its local integers.
\<close>

record ('s, 'r, 'a) ops =
  op_len :: "'r \<Rightarrow> 's \<Rightarrow> int \<times> 's \<Rightarrow> bool"
  op_getitem :: "'r \<Rightarrow> int \<Rightarrow> 's \<Rightarrow> (error + 'a) \<times> 's \<Rightarrow> bool"
  op_eq :: "'a \<Rightarrow> 'a \<Rightarrow> 's \<Rightarrow> bool \<times> 's \<Rightarrow> bool"
  op_lt :: "'a \<Rightarrow> 'a \<Rightarrow> 's \<Rightarrow> bool \<times> 's \<Rightarrow> bool"

text \<open>
  \<open>loop_run P arr target left right s (res, s')\<close>: started in state \<open>s\<close> at the test
  of the loop condition, the rest of the call can end with \<open>res\<close> in state \<open>s'\<close>. One
  rule for each way through lines 9 to 19.
\<close>

inductive loop_run ::
  "('s, 'r, 'a) ops \<Rightarrow> 'r \<Rightarrow> 'a \<Rightarrow> int \<Rightarrow> int \<Rightarrow> 's \<Rightarrow> (error + int) \<times> 's \<Rightarrow> bool"
  for P :: "('s, 'r, 'a) ops" and arr :: 'r and target :: 'a where
  exit: "\<not> left \<le> right \<Longrightarrow> loop_run P arr target left right s (Inr (- 1), s)"
| raise_eq: "left \<le> right \<Longrightarrow> mid = (left + right) div 2 \<Longrightarrow>
     op_getitem P arr mid s (Inl e, s1) \<Longrightarrow>
     loop_run P arr target left right s (Inl e, s1)"
| found: "left \<le> right \<Longrightarrow> mid = (left + right) div 2 \<Longrightarrow>
     op_getitem P arr mid s (Inr v, s1) \<Longrightarrow> op_eq P v target s1 (True, s2) \<Longrightarrow>
     loop_run P arr target left right s (Inr mid, s2)"
| raise_lt: "left \<le> right \<Longrightarrow> mid = (left + right) div 2 \<Longrightarrow>
     op_getitem P arr mid s (Inr v, s1) \<Longrightarrow> op_eq P v target s1 (False, s2) \<Longrightarrow>
     op_getitem P arr mid s2 (Inl e, s3) \<Longrightarrow>
     loop_run P arr target left right s (Inl e, s3)"
| go_right: "left \<le> right \<Longrightarrow> mid = (left + right) div 2 \<Longrightarrow>
     op_getitem P arr mid s (Inr v, s1) \<Longrightarrow> op_eq P v target s1 (False, s2) \<Longrightarrow>
     op_getitem P arr mid s2 (Inr w, s3) \<Longrightarrow> op_lt P w target s3 (True, s4) \<Longrightarrow>
     loop_run P arr target (mid + 1) right s4 out \<Longrightarrow>
     loop_run P arr target left right s out"
| go_left: "left \<le> right \<Longrightarrow> mid = (left + right) div 2 \<Longrightarrow>
     op_getitem P arr mid s (Inr v, s1) \<Longrightarrow> op_eq P v target s1 (False, s2) \<Longrightarrow>
     op_getitem P arr mid s2 (Inr w, s3) \<Longrightarrow> op_lt P w target s3 (False, s4) \<Longrightarrow>
     loop_run P arr target left (mid - 1) s4 out \<Longrightarrow>
     loop_run P arr target left right s out"

text \<open>Line 7, then the loop.\<close>

inductive call_run ::
  "('s, 'r, 'a) ops \<Rightarrow> 'r \<Rightarrow> 'a \<Rightarrow> 's \<Rightarrow> (error + int) \<times> 's \<Rightarrow> bool"
  for P :: "('s, 'r, 'a) ops" and arr :: 'r and target :: 'a where
  call: "op_len P arr s (n, s1) \<Longrightarrow> loop_run P arr target 0 (n - 1) s1 out \<Longrightarrow>
     call_run P arr target s out"

text \<open>
  Operations that leave the state as it is, and operations with one outcome only.
\<close>

definition read_only :: "('s, 'r, 'a) ops \<Rightarrow> bool" where
  "read_only P \<longleftrightarrow>
     (\<forall>a s n s'. op_len P a s (n, s') \<longrightarrow> s' = s) \<and>
     (\<forall>a i s r s'. op_getitem P a i s (r, s') \<longrightarrow> s' = s) \<and>
     (\<forall>v w s b s'. op_eq P v w s (b, s') \<longrightarrow> s' = s) \<and>
     (\<forall>v w s b s'. op_lt P v w s (b, s') \<longrightarrow> s' = s)"

definition deterministic :: "('s, 'r, 'a) ops \<Rightarrow> bool" where
  "deterministic P \<longleftrightarrow>
     (\<forall>a s x y. op_len P a s x \<and> op_len P a s y \<longrightarrow> x = y) \<and>
     (\<forall>a i s x y. op_getitem P a i s x \<and> op_getitem P a i s y \<longrightarrow> x = y) \<and>
     (\<forall>v w s x y. op_eq P v w s x \<and> op_eq P v w s y \<longrightarrow> x = y) \<and>
     (\<forall>v w s x y. op_lt P v w s x \<and> op_lt P v w s y \<longrightarrow> x = y)"

text \<open>
  The operations of Python's own lists and of values compared by \<open>=\<close> and \<open><\<close>: the
  state is a heap of list objects, read through the reference.
\<close>

type_synonym ref = nat

definition list_ops :: "(ref \<Rightarrow> 'a::ord list, ref, 'a) ops" where
  "list_ops =
     \<lparr> op_len = (\<lambda>arr s out. out = (int (length (s arr)), s)),
       op_getitem = (\<lambda>arr i s out. out = (getitem (s arr) i, s)),
       op_eq = (\<lambda>v w s out. out = (v = w, s)),
       op_lt = (\<lambda>v w s out. out = (v < w, s)) \<rparr>"

text \<open>
  A sequence whose indexing counts its calls in the state, for comparison: its
  \<open>op_getitem\<close> is not read-only.
\<close>

definition counting_ops :: "(nat, unit, int) ops" where
  "counting_ops =
     \<lparr> op_len = (\<lambda>arr s out. out = (1, s)),
       op_getitem = (\<lambda>arr i s out. out = (Inr 0, Suc s)),
       op_eq = (\<lambda>v w s out. out = (v = w, s)),
       op_lt = (\<lambda>v w s out. out = (v < w, s)) \<rparr>"

section \<open>Properties\<close>

subsection \<open>Auxiliary facts\<close>

lemma getitem_in_range:
  "0 \<le> i \<Longrightarrow> i < int (length arr) \<Longrightarrow> getitem arr i = Inr (arr ! nat i)"
  by (simp add: getitem_def)

lemma loop_body_Continue:
  "loop_body arr target left right = Continue left' right' \<Longrightarrow>
     (left' = (left + right) div 2 + 1 \<and> right' = right)
   \<or> (left' = left \<and> right' = (left + right) div 2 - 1)"
  by (auto simp: loop_body_def Let_def split: sum.splits if_splits)

lemma loop_body_in_range:
  assumes "0 \<le> left" "left \<le> right" "right < int (length arr)"
  shows "loop_body arr target left right =
     (let mid = (left + right) div 2; v = arr ! nat mid in
      if v = target then Return mid
      else if v < target then Continue (mid + 1) right
      else Continue left (mid - 1))"
proof -
  from assms have "0 \<le> (left + right) div 2" "(left + right) div 2 < int (length arr)"
    by auto
  then have "getitem arr ((left + right) div 2) = Inr (arr ! nat ((left + right) div 2))"
    by (rule getitem_in_range)
  then show ?thesis
    by (simp add: loop_body_def Let_def)
qed

lemma loop_body_measure:
  assumes "left \<le> right" and "loop_body arr target left right = Continue left' right'"
  shows "- 1 \<le> right' - left' \<and> right' - left' < right - left"
proof -
  from assms(1) have "left \<le> (left + right) div 2" "(left + right) div 2 \<le> right"
    by auto
  with loop_body_Continue [OF assms(2)] show ?thesis
    by auto
qed

lemma while_loop_result:
  "0 \<le> left \<Longrightarrow> right < int (length arr) \<Longrightarrow>
   \<exists>i. while_loop arr target left right = Inr i \<and>
       (i = - 1 \<or> (left \<le> i \<and> i \<le> right \<and> arr ! nat i = target))"
proof (induction arr target left right rule: while_loop.induct)
  case (1 arr target left right)
  show ?case
  proof (cases "left \<le> right")
    case False
    then show ?thesis by (simp add: while_loop.simps)
  next
    case True
    let ?mid = "(left + right) div 2"
    from True have mid: "left \<le> ?mid" "?mid \<le> right" by auto
    note body = loop_body_in_range [OF "1.prems"(1) True "1.prems"(2), of target]
    show ?thesis
    proof (cases "arr ! nat ?mid = target")
      case eq: True
      with body have "loop_body arr target left right = Return ?mid"
        by (simp add: Let_def)
      with True eq mid show ?thesis
        by (simp add: while_loop.simps)
    next
      case neq: False
      show ?thesis
      proof (cases "arr ! nat ?mid < target")
        case lt: True
        with neq body have b: "loop_body arr target left right = Continue (?mid + 1) right"
          by (simp add: Let_def)
        from "1.prems" mid have "0 \<le> ?mid + 1" by linarith
        from "1.IH" [OF True b this "1.prems"(2)]
        obtain i where "while_loop arr target (?mid + 1) right = Inr i"
          and "i = - 1 \<or> (?mid + 1 \<le> i \<and> i \<le> right \<and> arr ! nat i = target)"
          by blast
        with True b mid show ?thesis
          by (auto simp: while_loop.simps [of arr target left right])
      next
        case ge: False
        with neq body have b: "loop_body arr target left right = Continue left (?mid - 1)"
          by (simp add: Let_def)
        from "1.prems" mid have "?mid - 1 < int (length arr)" by linarith
        from "1.IH" [OF True b "1.prems"(1) this]
        obtain i where "while_loop arr target left (?mid - 1) = Inr i"
          and "i = - 1 \<or> (left \<le> i \<and> i \<le> ?mid - 1 \<and> arr ! nat i = target)"
          by blast
        with True b mid show ?thesis
          by (auto simp: while_loop.simps [of arr target left right])
      qed
    qed
  qed
qed

lemma while_loop_absent:
  fixes arr :: "'a::linorder list"
  shows "sorted arr \<Longrightarrow> 0 \<le> left \<Longrightarrow> right < int (length arr) \<Longrightarrow>
   while_loop arr target left right = Inr (- 1) \<Longrightarrow>
   left \<le> j \<Longrightarrow> j \<le> right \<Longrightarrow> arr ! nat j \<noteq> target"
proof (induction arr target left right rule: while_loop.induct)
  case (1 arr target left right)
  from "1.prems" have le: "left \<le> right" by linarith
  let ?mid = "(left + right) div 2"
  from le have mid: "left \<le> ?mid" "?mid \<le> right" by auto
  note body = loop_body_in_range [OF "1.prems"(2) le "1.prems"(3), of target]
  show ?case
  proof (cases "arr ! nat ?mid = target")
    case eq: True
    with body have "loop_body arr target left right = Return ?mid"
      by (simp add: Let_def)
    with le "1.prems"(4) have "?mid = - 1"
      by (simp add: while_loop.simps [of arr target left right])
    with mid "1.prems"(2) show ?thesis by linarith
  next
    case neq: False
    show ?thesis
    proof (cases "arr ! nat ?mid < target")
      case lt: True
      with neq body have b: "loop_body arr target left right = Continue (?mid + 1) right"
        by (simp add: Let_def)
      with le "1.prems"(4) have res: "while_loop arr target (?mid + 1) right = Inr (- 1)"
        by (simp add: while_loop.simps [of arr target left right])
      from "1.prems" mid have lo: "0 \<le> ?mid + 1" by linarith
      show ?thesis
      proof (cases "j \<le> ?mid")
        case True
        with "1.prems" mid have "nat j \<le> nat ?mid" "nat ?mid < length arr" by linarith+
        with \<open>sorted arr\<close> have "arr ! nat j \<le> arr ! nat ?mid"
          by (simp add: sorted_nth_mono)
        with lt show ?thesis by auto
      next
        case False
        then have "?mid + 1 \<le> j" by linarith
        from "1.IH" [OF le b "1.prems"(1) lo "1.prems"(3) res this "1.prems"(6)]
        show ?thesis .
      qed
    next
      case ge: False
      with neq body have b: "loop_body arr target left right = Continue left (?mid - 1)"
        by (simp add: Let_def)
      with le "1.prems"(4) have res: "while_loop arr target left (?mid - 1) = Inr (- 1)"
        by (simp add: while_loop.simps [of arr target left right])
      from "1.prems" mid have hi: "?mid - 1 < int (length arr)" by linarith
      show ?thesis
      proof (cases "?mid \<le> j")
        case True
        with "1.prems" mid have "nat ?mid \<le> nat j" "nat j < length arr" by linarith+
        with \<open>sorted arr\<close> have "arr ! nat ?mid \<le> arr ! nat j"
          by (simp add: sorted_nth_mono)
        with ge neq show ?thesis by auto
      next
        case False
        then have "j \<le> ?mid - 1" by linarith
        from "1.IH" [OF le b "1.prems"(1) "1.prems"(2) hi res "1.prems"(5) this]
        show ?thesis .
      qed
    qed
  qed
qed

lemma binary_search_result:
  "\<exists>i. binary_search arr target = Inr i \<and>
       (i = - 1 \<or> (0 \<le> i \<and> i < int (length arr) \<and> arr ! nat i = target))"
proof -
  have "(0::int) \<le> 0" and "int (length arr) - 1 < int (length arr)" by simp_all
  from while_loop_result [OF this, of target] show ?thesis
    unfolding binary_search_def by force
qed

lemma loop_head_bounds:
  "loop_head arr target left right \<Longrightarrow> 0 \<le> left \<and> right < int (length arr)"
proof (induction rule: loop_head.induct)
  case entry
  show ?case by simp
next
  case (again left right left' right')
  from again.hyps(2) have "left \<le> (left + right) div 2" "(left + right) div 2 \<le> right"
    by auto
  with again.IH loop_body_Continue [OF again.hyps(3)] show ?case
    by auto
qed

lemma loop_head_empty:
  "loop_head [] x left right \<Longrightarrow> left = 0 \<and> right = - 1"
  by (induction rule: loop_head.induct) simp_all

text \<open>
  From every loop head that the call reaches, the rest of the loop computes the result
  of the call: \<open>loop_head\<close> describes the run of \<open>binary_search\<close>.
\<close>
lemma loop_head_result:
  "loop_head arr target left right \<Longrightarrow>
   while_loop arr target left right = binary_search arr target"
proof (induction rule: loop_head.induct)
  case entry
  show ?case by (simp add: binary_search_def)
next
  case (again left right left' right')
  from again.hyps(2,3)
  have "while_loop arr target left right = while_loop arr target left' right'"
    by (simp add: while_loop.simps [of arr target left right])
  with again.IH show ?case by simp
qed

lemma while_loop_opt_total:
  "while_loop_opt arr target left right = Some (while_loop arr target left right)"
proof (induction arr target left right rule: while_loop.induct)
  case (1 arr target left right)
  show ?case
  proof (cases "left \<le> right")
    case False
    then show ?thesis
      by (simp add: while_loop_opt.simps while_loop.simps)
  next
    case True
    show ?thesis
    proof (cases "loop_body arr target left right")
      case (Return i)
      with True show ?thesis
        by (simp add: while_loop_opt.simps while_loop.simps)
    next
      case (Raise e)
      with True show ?thesis
        by (simp add: while_loop_opt.simps while_loop.simps)
    next
      case (Continue left' right')
      with True "1.IH" [OF True Continue] show ?thesis
        by (simp add: while_loop_opt.simps [of arr target left right]
            while_loop.simps [of arr target left right])
    qed
  qed
qed

lemma getitem_spec_at: "0 \<le> i \<Longrightarrow> getitem arr i = spec_at arr i"
  by (simp add: getitem_def spec_at_def)

lemma spec_loop_while_loop:
  fixes arr :: "'a::linorder list"
  shows "0 \<le> left \<Longrightarrow> spec_loop arr target left right = while_loop arr target left right"
proof (induction arr target left right rule: while_loop.induct)
  case (1 arr target left right)
  show ?case
  proof (cases "left \<le> right")
    case False
    then show ?thesis
      by (simp add: spec_loop.simps while_loop.simps)
  next
    case True
    let ?mid = "(left + right) div 2"
    from True "1.prems" have mid: "0 \<le> ?mid" "left \<le> ?mid" by auto
    then have at: "getitem arr ?mid = spec_at arr ?mid"
      by (simp add: getitem_spec_at)
    show ?thesis
    proof (cases "spec_at arr ?mid")
      case (Inl e)
      with at True show ?thesis
        by (simp add: spec_loop.simps [of arr target left right]
            while_loop.simps [of arr target left right] loop_body_def)
    next
      case (Inr v)
      consider (eq) "v = target" | (lt) "v \<noteq> target" "v < target"
        | (gt) "v \<noteq> target" "\<not> v < target" "target < v"
        by fastforce
      then show ?thesis
      proof cases
        case eq
        with at Inr True show ?thesis
          by (simp add: spec_loop.simps [of arr target left right]
              while_loop.simps [of arr target left right] loop_body_def)
      next
        case lt
        with at Inr have b: "loop_body arr target left right = Continue (?mid + 1) right"
          by (simp add: loop_body_def)
        from mid have "0 \<le> ?mid + 1" by simp
        from "1.IH" [OF True b this] lt at Inr True b show ?thesis
          by (simp add: spec_loop.simps [of arr target left right]
              while_loop.simps [of arr target left right])
      next
        case gt
        with at Inr have b: "loop_body arr target left right = Continue left (?mid - 1)"
          by (simp add: loop_body_def)
        from "1.IH" [OF True b "1.prems"] gt at Inr True b show ?thesis
          by (simp add: spec_loop.simps [of arr target left right]
              while_loop.simps [of arr target left right])
      qed
    qed
  qed
qed

lemma loop_run_read_only:
  assumes "read_only P"
  shows "loop_run P arr target left right s out \<Longrightarrow> snd out = s"
proof (induction rule: loop_run.induct)
  case (exit left right s)
  show ?case by simp
next
  case (raise_eq left right mid s e s1)
  with assms show ?case unfolding read_only_def by auto
next
  case (found left right mid s v s1 s2)
  with assms have "s1 = s" "s2 = s1" unfolding read_only_def by blast+
  then show ?case by simp
next
  case (raise_lt left right mid s v s1 s2 e s3)
  with assms have "s1 = s" "s2 = s1" "s3 = s2" unfolding read_only_def by blast+
  then show ?case by simp
next
  case (go_right left right mid s v s1 s2 w s3 s4 out)
  with assms have "s1 = s" "s2 = s1" "s3 = s2" "s4 = s3" unfolding read_only_def by blast+
  with go_right.IH show ?case by simp
next
  case (go_left left right mid s v s1 s2 w s3 s4 out)
  with assms have "s1 = s" "s2 = s1" "s3 = s2" "s4 = s3" unfolding read_only_def by blast+
  with go_left.IH show ?case by simp
qed

lemma det_getitem:
  "deterministic P \<Longrightarrow> op_getitem P a i s (r, t) \<Longrightarrow> op_getitem P a i s (r', t') \<Longrightarrow>
   r = r' \<and> t = t'"
  unfolding deterministic_def by blast

lemma det_eq:
  "deterministic P \<Longrightarrow> op_eq P v w s (b, t) \<Longrightarrow> op_eq P v w s (b', t') \<Longrightarrow>
   b = b' \<and> t = t'"
  unfolding deterministic_def by blast

lemma det_lt:
  "deterministic P \<Longrightarrow> op_lt P v w s (b, t) \<Longrightarrow> op_lt P v w s (b', t') \<Longrightarrow>
   b = b' \<and> t = t'"
  unfolding deterministic_def by blast

lemma det_len:
  "deterministic P \<Longrightarrow> op_len P a s (n, t) \<Longrightarrow> op_len P a s (n', t') \<Longrightarrow>
   n = n' \<and> t = t'"
  unfolding deterministic_def by blast

lemma loop_run_deterministic:
  assumes d: "deterministic P"
  shows "loop_run P arr target left right s out \<Longrightarrow>
         loop_run P arr target left right s out' \<Longrightarrow> out = out'"
proof (induction arbitrary: out' rule: loop_run.induct)
  case (exit left right s)
  from exit.prems exit.hyps show ?case
    by (cases rule: loop_run.cases) auto
next
  case (raise_eq left right mid s e s1)
  from raise_eq.prems raise_eq.hyps show ?case
    by (cases rule: loop_run.cases) (auto dest: det_getitem [OF d])
next
  case (found left right mid s v s1 s2)
  from found.prems show ?case
  proof (cases rule: loop_run.cases)
    case exit
    with found.hyps show ?thesis by simp
  next
    case (raise_eq mid' e' s1')
    with found.hyps det_getitem [OF d] show ?thesis by blast
  next
    case (found mid' v' s1' s2')
    with found.hyps(2,3) det_getitem [OF d] have "v' = v" "s1' = s1" by blast+
    with found found.hyps(4) det_eq [OF d] have "s2' = s2" by blast
    with found found.hyps(2) show ?thesis by simp
  next
    case (raise_lt mid' v' s1' s2' e' s3')
    with found.hyps(2,3) det_getitem [OF d] have "v' = v" "s1' = s1" by blast+
    with raise_lt found.hyps(4) det_eq [OF d] show ?thesis by blast
  next
    case (go_right mid' v' s1' s2' w' s3' s4')
    with found.hyps(2,3) det_getitem [OF d] have "v' = v" "s1' = s1" by blast+
    with go_right found.hyps(4) det_eq [OF d] show ?thesis by blast
  next
    case (go_left mid' v' s1' s2' w' s3' s4')
    with found.hyps(2,3) det_getitem [OF d] have "v' = v" "s1' = s1" by blast+
    with go_left found.hyps(4) det_eq [OF d] show ?thesis by blast
  qed
next
  case (raise_lt left right mid s v s1 s2 e s3)
  from raise_lt.prems show ?case
  proof (cases rule: loop_run.cases)
    case exit
    with raise_lt.hyps show ?thesis by simp
  next
    case (raise_eq mid' e' s1')
    with raise_lt.hyps det_getitem [OF d] show ?thesis by blast
  next
    case (found mid' v' s1' s2')
    with raise_lt.hyps(2,3) det_getitem [OF d] have "v' = v" "s1' = s1" by blast+
    with found raise_lt.hyps(4) det_eq [OF d] show ?thesis by blast
  next
    case (raise_lt mid' v' s1' s2' e' s3')
    with raise_lt.hyps(2,3) det_getitem [OF d] have "v' = v" "s1' = s1" by blast+
    with raise_lt raise_lt.hyps(4) det_eq [OF d] have "s2' = s2" by blast
    with raise_lt raise_lt.hyps(2,5) det_getitem [OF d] show ?thesis by blast
  next
    case (go_right mid' v' s1' s2' w' s3' s4')
    with raise_lt.hyps(2,3) det_getitem [OF d] have "v' = v" "s1' = s1" by blast+
    with go_right raise_lt.hyps(4) det_eq [OF d] have "s2' = s2" by blast
    with go_right raise_lt.hyps(2,5) det_getitem [OF d] show ?thesis by blast
  next
    case (go_left mid' v' s1' s2' w' s3' s4')
    with raise_lt.hyps(2,3) det_getitem [OF d] have "v' = v" "s1' = s1" by blast+
    with go_left raise_lt.hyps(4) det_eq [OF d] have "s2' = s2" by blast
    with go_left raise_lt.hyps(2,5) det_getitem [OF d] show ?thesis by blast
  qed
next
  case (go_right left right mid s v s1 s2 w s3 s4 out)
  from go_right.prems show ?case
  proof (cases rule: loop_run.cases)
    case exit
    with go_right.hyps show ?thesis by simp
  next
    case (raise_eq mid' e' s1')
    with go_right.hyps det_getitem [OF d] show ?thesis by blast
  next
    case (found mid' v' s1' s2')
    with go_right.hyps(2,3) det_getitem [OF d] have "v' = v" "s1' = s1" by blast+
    with found go_right.hyps(4) det_eq [OF d] show ?thesis by blast
  next
    case (raise_lt mid' v' s1' s2' e' s3')
    with go_right.hyps(2,3) det_getitem [OF d] have "v' = v" "s1' = s1" by blast+
    with raise_lt go_right.hyps(4) det_eq [OF d] have "s2' = s2" by blast
    with raise_lt go_right.hyps(2,5) det_getitem [OF d] show ?thesis by blast
  next
    case (go_right mid' v' s1' s2' w' s3' s4')
    with go_right.hyps(2,3) det_getitem [OF d] have "v' = v" "s1' = s1" by blast+
    with go_right go_right.hyps(4) det_eq [OF d] have "s2' = s2" by blast
    with go_right go_right.hyps(2,5) det_getitem [OF d] have "w' = w" "s3' = s3" by blast+
    with go_right go_right.hyps(6) det_lt [OF d] have "s4' = s4" by blast
    with go_right go_right.hyps(2) go_right.IH show ?thesis by blast
  next
    case (go_left mid' v' s1' s2' w' s3' s4')
    with go_right.hyps(2,3) det_getitem [OF d] have "v' = v" "s1' = s1" by blast+
    with go_left go_right.hyps(4) det_eq [OF d] have "s2' = s2" by blast
    with go_left go_right.hyps(2,5) det_getitem [OF d] have "w' = w" "s3' = s3" by blast+
    with go_left go_right.hyps(6) det_lt [OF d] show ?thesis by blast
  qed
next
  case (go_left left right mid s v s1 s2 w s3 s4 out)
  from go_left.prems show ?case
  proof (cases rule: loop_run.cases)
    case exit
    with go_left.hyps show ?thesis by simp
  next
    case (raise_eq mid' e' s1')
    with go_left.hyps det_getitem [OF d] show ?thesis by blast
  next
    case (found mid' v' s1' s2')
    with go_left.hyps(2,3) det_getitem [OF d] have "v' = v" "s1' = s1" by blast+
    with found go_left.hyps(4) det_eq [OF d] show ?thesis by blast
  next
    case (raise_lt mid' v' s1' s2' e' s3')
    with go_left.hyps(2,3) det_getitem [OF d] have "v' = v" "s1' = s1" by blast+
    with raise_lt go_left.hyps(4) det_eq [OF d] have "s2' = s2" by blast
    with raise_lt go_left.hyps(2,5) det_getitem [OF d] show ?thesis by blast
  next
    case (go_right mid' v' s1' s2' w' s3' s4')
    with go_left.hyps(2,3) det_getitem [OF d] have "v' = v" "s1' = s1" by blast+
    with go_right go_left.hyps(4) det_eq [OF d] have "s2' = s2" by blast
    with go_right go_left.hyps(2,5) det_getitem [OF d] have "w' = w" "s3' = s3" by blast+
    with go_right go_left.hyps(6) det_lt [OF d] show ?thesis by blast
  next
    case (go_left mid' v' s1' s2' w' s3' s4')
    with go_left.hyps(2,3) det_getitem [OF d] have "v' = v" "s1' = s1" by blast+
    with go_left go_left.hyps(4) det_eq [OF d] have "s2' = s2" by blast
    with go_left go_left.hyps(2,5) det_getitem [OF d] have "w' = w" "s3' = s3" by blast+
    with go_left go_left.hyps(6) det_lt [OF d] have "s4' = s4" by blast
    with go_left go_left.hyps(2) go_left.IH show ?thesis by blast
  qed
qed


lemma call_run_read_only:
  assumes "read_only P" and "call_run P arr target s out"
  shows "snd out = s"
  using assms(2)
proof (cases rule: call_run.cases)
  case (call n s1)
  from assms(1) call(1) have "s1 = s" unfolding read_only_def by blast
  with loop_run_read_only [OF assms(1) call(2)] show ?thesis by simp
qed

lemma call_run_deterministic:
  assumes d: "deterministic P"
    and "call_run P arr target s out" and "call_run P arr target s out'"
  shows "out = out'"
  using assms(2)
proof (cases rule: call_run.cases)
  case (call n s1)
  from assms(3) show ?thesis
  proof (cases rule: call_run.cases)
    case call': (call n' s1')
    from det_len [OF d call(1) call'(1)] have "n' = n" "s1' = s1" by simp_all
    with call(2) call'(2) show ?thesis
      by (simp add: loop_run_deterministic [OF d])
  qed
qed

lemma read_only_list_ops: "read_only list_ops"
  by (simp add: read_only_def list_ops_def)

lemma deterministic_list_ops: "deterministic list_ops"
  by (simp add: deterministic_def list_ops_def)

lemma loop_run_list_ops:
  "loop_run list_ops arr target left right s (while_loop (s arr) target left right, s)"
proof (induction xs \<equiv> "s arr" target left right rule: while_loop.induct)
  case (1 target left right)
  show ?case
  proof (cases "left \<le> right")
    case False
    then show ?thesis
      by (simp add: while_loop.simps loop_run.exit)
  next
    case True
    define mid where "mid = (left + right) div 2"
    show ?thesis
    proof (cases "getitem (s arr) mid")
      case (Inl e)
      with True have "while_loop (s arr) target left right = Inl e"
        by (simp add: while_loop.simps [of _ target left right] loop_body_def mid_def)
      moreover from Inl have "op_getitem list_ops arr mid s (Inl e, s)"
        by (simp add: list_ops_def)
      ultimately show ?thesis
        using loop_run.raise_eq [OF True mid_def] by simp
    next
      case (Inr v)
      then have g: "op_getitem list_ops arr mid s (Inr v, s)"
        by (simp add: list_ops_def)
      show ?thesis
      proof (cases "v = target")
        case eq: True
        with Inr True have "while_loop (s arr) target left right = Inr mid"
          by (simp add: while_loop.simps [of _ target left right] loop_body_def mid_def)
        moreover from eq have "op_eq list_ops v target s (True, s)"
          by (simp add: list_ops_def)
        ultimately show ?thesis
          using loop_run.found [OF True mid_def g] by simp
      next
        case neq: False
        then have e: "op_eq list_ops v target s (False, s)"
          by (simp add: list_ops_def)
        show ?thesis
        proof (cases "v < target")
          case lt: True
          with neq Inr have b: "loop_body (s arr) target left right = Continue (mid + 1) right"
            by (simp add: loop_body_def mid_def)
          from lt have l: "op_lt list_ops v target s (True, s)"
            by (simp add: list_ops_def)
          from True b
          have "while_loop (s arr) target left right = while_loop (s arr) target (mid + 1) right"
            by (simp add: while_loop.simps [of _ target left right])
          with loop_run.go_right [OF True mid_def g e g l "1.hyps" [OF True b]]
          show ?thesis by simp
        next
          case ge: False
          with neq Inr have b: "loop_body (s arr) target left right = Continue left (mid - 1)"
            by (simp add: loop_body_def mid_def)
          from ge have l: "op_lt list_ops v target s (False, s)"
            by (simp add: list_ops_def)
          from True b
          have "while_loop (s arr) target left right = while_loop (s arr) target left (mid - 1)"
            by (simp add: while_loop.simps [of _ target left right])
          with loop_run.go_left [OF True mid_def g e g l "1.hyps" [OF True b]]
          show ?thesis by simp
        qed
      qed
    qed
  qed
qed

lemma call_run_list_ops:
  "call_run list_ops arr target s out \<longleftrightarrow> out = (binary_search (s arr) target, s)"
proof -
  have len: "op_len list_ops arr s (int (length (s arr)), s)"
    by (simp add: list_ops_def)
  have run: "call_run list_ops arr target s (binary_search (s arr) target, s)"
    unfolding binary_search_def
    by (rule call_run.call [OF len loop_run_list_ops])
  show ?thesis
    using run call_run_deterministic [OF deterministic_list_ops run] by blast
qed

text \<open>
  The state is threaded through the operations: when indexing counts its calls, the
  call leaves a state other than the one it found.
\<close>

lemma call_run_counting_ops: "call_run counting_ops () 0 0 (Inr 0, Suc 0)"
proof -
  have len: "op_len counting_ops () 0 (1, 0)"
    by (simp add: counting_ops_def)
  have g: "op_getitem counting_ops () 0 0 (Inr 0, Suc 0)"
    by (simp add: counting_ops_def)
  have e: "op_eq counting_ops 0 0 (Suc 0) (True, Suc 0)"
    by (simp add: counting_ops_def)
  have "loop_run counting_ops () 0 0 (1 - 1) 0 (Inr 0, Suc 0)"
    using loop_run.found [of 0 0 0 counting_ops "()" 0 0 "Suc 0" 0 "Suc 0"] g e by simp
  with len show ?thesis
    by (rule call_run.call)
qed

lemma binary_search_unsorted_miss: "binary_search [5, 1 :: int] 1 = Inr (- 1)"
  by code_simp

subsection \<open>Main results\<close>

text \<open>
  C1. For every list \<open>arr\<close> sorted in non-decreasing order and every \<open>x\<close> that occurs
  in it, \<open>binary_search arr x\<close> returns an index \<open>i\<close> of the list with
  \<open>arr[i] = x\<close> (some occurrence, not necessarily the first).
\<close>
theorem binary_search_finds:
  fixes arr :: "'a::linorder list"
  assumes "sorted arr" and "x \<in> set arr"
  shows "\<exists>i. binary_search arr x = Inr i \<and> 0 \<le> i \<and> i < int (length arr) \<and> arr ! nat i = x"
proof -
  from binary_search_result [of arr x] obtain i where
    res: "binary_search arr x = Inr i"
    and i: "i = - 1 \<or> (0 \<le> i \<and> i < int (length arr) \<and> arr ! nat i = x)"
    by blast
  have "i \<noteq> - 1"
  proof
    assume "i = - 1"
    with res have r: "while_loop arr x 0 (int (length arr) - 1) = Inr (- 1)"
      by (simp add: binary_search_def)
    from \<open>x \<in> set arr\<close> obtain k where k: "k < length arr" "arr ! k = x"
      by (auto simp: in_set_conv_nth)
    have "arr ! nat (int k) \<noteq> x"
      by (rule while_loop_absent [OF \<open>sorted arr\<close> _ _ r]) (use k in simp_all)
    with k show False by simp
  qed
  with res i show ?thesis by blast
qed

theorem binary_search_finds_witness:
  "sorted [1, 3, 3, 5 :: int] \<and> (3::int) \<in> set [1, 3, 3, 5] \<and>
   (\<exists>i. binary_search [1, 3, 3, 5 :: int] 3 = Inr i \<and> 0 \<le> i \<and> i < int (length [1, 3, 3, 5 :: int])
        \<and> [1, 3, 3, 5 :: int] ! nat i = 3)"
  using binary_search_finds [of "[1, 3, 3, 5 :: int]" 3] by simp

text \<open>
  C2. For every list \<open>arr\<close> sorted in non-decreasing order and every \<open>x\<close> that does
  not occur in it, \<open>binary_search arr x\<close> returns the sentinel \<open>-1\<close>.
\<close>
theorem binary_search_absent:
  fixes arr :: "'a::linorder list"
  assumes "sorted arr" and "x \<notin> set arr"
  shows "binary_search arr x = Inr (- 1)"
proof -
  from binary_search_result [of arr x] obtain i where
    res: "binary_search arr x = Inr i"
    and i: "i = - 1 \<or> (0 \<le> i \<and> i < int (length arr) \<and> arr ! nat i = x)"
    by blast
  have "i = - 1"
  proof (rule ccontr)
    assume "i \<noteq> - 1"
    with i have "nat i < length arr" "arr ! nat i = x" by auto
    then have "x \<in> set arr" by (auto simp: in_set_conv_nth)
    with \<open>x \<notin> set arr\<close> show False by simp
  qed
  with res show ?thesis by simp
qed

theorem binary_search_absent_witness:
  "sorted [1, 3, 5 :: int] \<and> (4::int) \<notin> set [1, 3, 5] \<and> binary_search [1, 3, 5 :: int] 4 = Inr (- 1)"
  using binary_search_absent [of "[1, 3, 5 :: int]" 4] by simp

text \<open>
  C3. For every list (of any length, sorted or not) and every target: whenever the
  loop condition holds at a loop head that the call reaches, the index \<open>mid\<close> of the
  access \<^verbatim>\<open>arr[mid]\<close> satisfies \<open>0 \<le> mid < len(arr)\<close>, so the access yields an
  element; and the call never ends in an exception.
\<close>
theorem binary_search_never_raises:
  "(loop_head arr target left right \<and> left \<le> right \<longrightarrow>
      0 \<le> (left + right) div 2 \<and> (left + right) div 2 < int (length arr) \<and>
      getitem arr ((left + right) div 2) = Inr (arr ! nat ((left + right) div 2)) \<and>
      (\<forall>e. loop_body arr target left right \<noteq> Raise e))
   \<and> (\<forall>e. binary_search arr target \<noteq> Inl e)"
proof (intro conjI impI allI)
  assume h: "loop_head arr target left right \<and> left \<le> right"
  then have "0 \<le> left" "right < int (length arr)" "left \<le> right"
    using loop_head_bounds [of arr target left right] by simp_all
  then show "0 \<le> (left + right) div 2" "(left + right) div 2 < int (length arr)"
    by auto
  then show at: "getitem arr ((left + right) div 2) = Inr (arr ! nat ((left + right) div 2))"
    by (rule getitem_in_range)
  fix e
  from at show "loop_body arr target left right \<noteq> Raise e"
    by (simp add: loop_body_def Let_def)
next
  fix e
  from binary_search_result [of arr target] show "binary_search arr target \<noteq> Inl e"
    by auto
qed

theorem binary_search_never_raises_witness:
  "loop_head [5, 1, 4 :: int] 4 2 2 \<and> (2::int) \<le> 2 \<and>
   getitem [5, 1, 4 :: int] ((2 + 2) div 2) = Inr 4 \<and>
   binary_search [5, 1, 4 :: int] 4 \<noteq> Inl IndexError"
proof -
  have e: "loop_head [5, 1, 4 :: int] 4 0 2"
    using loop_head.entry [of "[5, 1, 4 :: int]" 4] by simp
  have b: "loop_body [5, 1, 4 :: int] 4 0 2 = Continue 2 2"
    by code_simp
  have h: "loop_head [5, 1, 4 :: int] 4 2 2"
    by (rule loop_head.again [OF e _ b]) simp
  from binary_search_never_raises [of "[5, 1, 4 :: int]" 4 2 2] h
  have "getitem [5, 1, 4 :: int] ((2 + 2) div 2) = Inr ([5, 1, 4] ! nat ((2 + 2) div 2))"
    and "binary_search [5, 1, 4 :: int] 4 \<noteq> Inl IndexError"
    by blast+
  with h show ?thesis by simp
qed

text \<open>
  C4. For every list and every target (sorted or not) the call terminates. An
  iteration that does not return starts with \<open>left \<le> right\<close> and ends with a
  strictly smaller \<open>right - left\<close>, which never falls below \<open>-1\<close>; and the loop
  written with no termination argument returns a value, the one \<open>binary_search\<close>
  computes.
\<close>
theorem binary_search_terminates:
  "(left \<le> right \<and> loop_body arr target left right = Continue left' right' \<longrightarrow>
      - 1 \<le> right' - left' \<and> right' - left' < right - left)
   \<and> binary_search_opt arr target = Some (binary_search arr target)"
  using loop_body_measure [of left right arr target left' right']
  by (simp add: binary_search_opt_def binary_search_def while_loop_opt_total)

theorem binary_search_terminates_witness:
  "(0::int) \<le> 1 \<and> loop_body [5, 1 :: int] 7 0 1 = Continue 1 1 \<and>
   (1::int) - 1 < 1 - 0 \<and>
   binary_search_opt [5, 1 :: int] 7 = Some (Inr (- 1))"
proof -
  have b: "loop_body [5, 1 :: int] 7 0 1 = Continue 1 1"
    by (simp add: loop_body_def getitem_def)
  have r: "binary_search [5, 1 :: int] 7 = Inr (- 1)"
    by code_simp
  from binary_search_terminates [of 0 1 "[5, 1 :: int]" 7 1 1] b r show ?thesis
    by simp
qed

text \<open>
  C5. On every list over a totally ordered type and every target, sorted or not,
  \<open>binary_search\<close> returns what the algorithm of the specification returns:
  \<open>low = 0\<close>, \<open>high = length - 1\<close>; while \<open>low \<le> high\<close>, \<open>mid\<close> is the floor of
  \<open>(low + high) / 2\<close>; \<open>mid\<close> is returned on equality, \<open>low\<close> becomes \<open>mid + 1\<close>
  when \<open>sequence[mid] < target\<close>, \<open>high\<close> becomes \<open>mid - 1\<close> when
  \<open>sequence[mid] > target\<close>; \<open>-1\<close> is returned when the loop ends.
\<close>
theorem binary_search_refines_spec:
  fixes arr :: "'a::linorder list"
  shows "binary_search arr target = spec_search arr target"
  by (simp add: binary_search_def spec_search_def spec_loop_while_loop)

text \<open>
  C6. On the empty list the result is \<open>-1\<close> for every target, and the only loop
  head the call reaches has \<open>left = 0\<close> and \<open>right = -1\<close>, where the loop condition
  is false: the body is never executed.
\<close>
theorem binary_search_empty:
  "binary_search [] x = Inr (- 1) \<and>
   (\<forall>left right. loop_head [] x left right \<longrightarrow> left = 0 \<and> right = - 1 \<and> \<not> left \<le> right)"
proof (intro conjI allI impI)
  show "binary_search [] x = Inr (- 1)"
    by (simp add: binary_search_def while_loop.simps)
next
  fix left right
  assume "loop_head [] x left right"
  then have "left = 0 \<and> right = - 1" by (rule loop_head_empty)
  then show "left = 0" "right = - 1" "\<not> left \<le> right" by simp_all
qed

theorem binary_search_empty_witness:
  "loop_head ([] :: int list) 7 0 (- 1) \<and> \<not> (0::int) \<le> - 1 \<and>
   binary_search ([] :: int list) 7 = Inr (- 1)"
proof -
  have h: "loop_head ([] :: int list) 7 0 (- 1)"
    using loop_head.entry [of "[] :: int list" 7] by simp
  from binary_search_empty [of "7::int"]
  have r: "binary_search ([] :: int list) 7 = Inr (- 1)"
    and a: "\<And>left right. loop_head ([] :: int list) 7 left right \<Longrightarrow> \<not> left \<le> right"
    by blast+
  from a [OF h] h r show ?thesis
    by blast
qed

text \<open>
  C7. In the list of the script the target \<open>7\<close> is found at index \<open>3\<close>; the result
  is not \<open>-1\<close>, so the script prints the line "Element 7 found at index 3" and
  nothing else.
\<close>
theorem script_prints:
  "binary_search sorted_array 7 = Inr 3 \<and> script = Inr [''Element 7 found at index 3'']"
  by code_simp

text \<open>
  C8. In the list of the script, the first element \<open>1\<close> is found at index \<open>0\<close> and
  the last element \<open>19\<close> at index \<open>9\<close>.
\<close>
theorem binary_search_first_last:
  "binary_search sorted_array 1 = Inr 0 \<and> binary_search sorted_array 19 = Inr 9"
  by code_simp

text \<open>
  C9. The call is deterministic and pure. Whatever the four operations are: if they
  leave the state as it is, so does the call; if each of them has one outcome only, so
  has the call; with both, a second call, made in the state the first one left,
  returns the same result, and the state is still the one before the first call. The
  operations of Python's lists, with values compared by \<open>=\<close> and \<open><\<close>, are of both
  kinds, and there the call has exactly one outcome: the value of \<open>binary_search\<close> on
  the contents of the list and on the target, in the state the call started in.
  (The conditions on the operations are needed: \<open>call_run_counting_ops\<close> is a call
  that changes the state, through an indexing operation that does.)
\<close>
theorem binary_search_pure:
  "(read_only P \<and> call_run P a x s (res, s') \<longrightarrow> s' = s)
   \<and> (deterministic P \<and> call_run P a x s out1 \<and> call_run P a x s out2 \<longrightarrow> out1 = out2)
   \<and> (read_only P \<and> deterministic P \<and> call_run P a x s (r1, s1) \<and> call_run P a x s1 (r2, s2)
        \<longrightarrow> r1 = r2 \<and> s1 = s \<and> s2 = s)
   \<and> read_only (list_ops :: (ref \<Rightarrow> 'b::ord list, ref, 'b) ops)
   \<and> deterministic (list_ops :: (ref \<Rightarrow> 'b::ord list, ref, 'b) ops)
   \<and> (call_run list_ops arr y h out \<longleftrightarrow> out = (binary_search (h arr) y, h))"
proof (intro conjI impI)
  assume "read_only P \<and> call_run P a x s (res, s')"
  then show "s' = s"
    using call_run_read_only [of P a x s "(res, s')"] by simp
next
  assume "deterministic P \<and> call_run P a x s out1 \<and> call_run P a x s out2"
  then show "out1 = out2"
    using call_run_deterministic [of P a x s out1 out2] by simp
next
  assume h: "read_only P \<and> deterministic P \<and> call_run P a x s (r1, s1) \<and>
    call_run P a x s1 (r2, s2)"
  then have 1: "s1 = s"
    using call_run_read_only [of P a x s "(r1, s1)"] by simp
  with h have "s2 = s"
    using call_run_read_only [of P a x s "(r2, s2)"] by simp
  moreover from h 1 have "(r1, s1) = (r2, s2)"
    using call_run_deterministic [of P a x s "(r1, s1)" "(r2, s2)"] by simp
  ultimately show "r1 = r2" "s1 = s" "s2 = s" using 1 by simp_all
next
  show "read_only (list_ops :: (ref \<Rightarrow> 'b list, ref, 'b) ops)"
    by (rule read_only_list_ops)
  show "deterministic (list_ops :: (ref \<Rightarrow> 'b list, ref, 'b) ops)"
    by (rule deterministic_list_ops)
  show "call_run list_ops arr y h out \<longleftrightarrow> out = (binary_search (h arr) y, h)"
    by (rule call_run_list_ops)
qed

theorem binary_search_pure_witness:
  "read_only (list_ops :: (ref \<Rightarrow> int list, ref, int) ops) \<and>
   deterministic (list_ops :: (ref \<Rightarrow> int list, ref, int) ops) \<and>
   call_run list_ops 0 3 (\<lambda>r. [1, 3, 5 :: int]) (Inr 1, \<lambda>r. [1, 3, 5])"
proof -
  have r: "binary_search [1, 3, 5 :: int] 3 = Inr 1"
    by code_simp
  note t = binary_search_pure [where arr = 0 and y = "3::int" and h = "\<lambda>r. [1, 3, 5 :: int]"
      and out = "(binary_search [1, 3, 5 :: int] 3, \<lambda>r. [1, 3, 5 :: int])",
      THEN conjunct2, THEN conjunct2, THEN conjunct2]
  from t have ro: "read_only (list_ops :: (ref \<Rightarrow> int list, ref, int) ops)"
    by (rule conjunct1)
  from t [THEN conjunct2] have de: "deterministic (list_ops :: (ref \<Rightarrow> int list, ref, int) ops)"
    by (rule conjunct1)
  from t [THEN conjunct2, THEN conjunct2]
  have "call_run list_ops 0 3 (\<lambda>r. [1, 3, 5 :: int]) (binary_search [1, 3, 5 :: int] 3, \<lambda>r. [1, 3, 5])"
    by (rule iffD2) (rule refl)
  then have "call_run list_ops 0 3 (\<lambda>r. [1, 3, 5 :: int]) (Inr 1, \<lambda>r. [1, 3, 5])"
    by (simp only: r)
  with ro de show ?thesis
    by (intro conjI)
qed

text \<open>
  C10. For every list, sorted or not, and every target: a result \<open>r\<close> other than
  \<open>-1\<close> is an index of the list, \<open>0 \<le> r < len(arr)\<close>, and \<open>arr[r]\<close> is the
  target. (On an unsorted list the call can miss a target that is present, as
  \<open>binary_search_unsorted_miss\<close> shows, but it never returns a wrong index.)
\<close>
theorem binary_search_sound:
  "binary_search arr x = Inr r \<Longrightarrow> r \<noteq> - 1 \<Longrightarrow>
   0 \<le> r \<and> r < int (length arr) \<and> arr ! nat r = x \<and> getitem arr r = Inr x"
  using binary_search_result [of arr x] by (auto simp: getitem_in_range)

theorem binary_search_sound_witness:
  "binary_search [5, 1, 4 :: int] 4 = Inr 2 \<and> (2::int) \<noteq> - 1 \<and>
   (0::int) \<le> 2 \<and> (2::int) < int (length [5, 1, 4 :: int]) \<and> [5, 1, 4 :: int] ! nat 2 = 4"
proof -
  have r: "binary_search [5, 1, 4 :: int] 4 = Inr 2"
    by code_simp
  from binary_search_sound [OF r] r show ?thesis by simp
qed

end
